theory Spec2Isabelle
  imports Main "HOL-Library.Word" "HOL-Library.Sublist"
begin

unbundle bit_operations_syntax

section \<open>Python values the generator formats\<close>

text \<open>Exceptions of the source, as values. \<open>StructError\<close> is \<open>struct.error\<close>.\<close>

datatype error =
    RuntimeError
  | NotImplementedError
  | ValueError
  | IndexError
  | AttributeError
  | StructError

definition hex_digits :: string where
  "hex_digits = ''0123456789abcdef''"

definition digit :: "nat \<Rightarrow> char" where
  "digit d = hex_digits ! d"

text \<open>\<open>str(i)\<close> of a Python int: decimal digits, no leading zero, a minus sign when
  negative. \<open>dec_digits\<close> is only applied to numbers that are not negative.\<close>

function dec_digits :: "int \<Rightarrow> string" where
  "dec_digits n =
     (if n < 10 then [digit (nat n)] else dec_digits (n div 10) @ [digit (nat (n mod 10))])"
  by pat_completeness auto
termination
  by (relation "measure nat") auto

declare dec_digits.simps [simp del]

definition str_int :: "int \<Rightarrow> string" where
  "str_int i = (if i < 0 then CHR ''-'' # dec_digits (- i) else dec_digits i)"

text \<open>\<open>hex(n)\<close> of a Python int.\<close>

function hex_digits_of :: "int \<Rightarrow> string" where
  "hex_digits_of n =
     (if n < 16 then [digit (nat n)] else hex_digits_of (n div 16) @ [digit (nat (n mod 16))])"
  by pat_completeness auto
termination
  by (relation "measure nat") auto

declare hex_digits_of.simps [simp del]

definition hex :: "int \<Rightarrow> string" where
  "hex n = (if n < 0 then ''-0x'' @ hex_digits_of (- n) else ''0x'' @ hex_digits_of n)"

text \<open>The value of an \<open>ast.Constant\<close> node. A float is its IEEE-754 binary64 bit
  pattern, which is what \<open>struct.pack("<d", f)\<close> writes. \<open>COther\<close> stands for the
  literals left (bytes, imaginary numbers), carried with the text \<open>str\<close> gives them;
  the generator only formats them and then fails to pack them.\<close>

datatype pyval =
    CInt int
  | CFloat "64 word"
  | CBool bool
  | CStr string
  | CNone
  | CEllipsis
  | COther string

text \<open>Conversion of a Python int to a double, as \<open>struct.pack("<d", i)\<close> does it:
  round to nearest, ties to even, on 53 bits; \<open>None\<close> when the int is too large for a
  double.\<close>

function bit_length :: "int \<Rightarrow> nat" where
  "bit_length n = (if n \<le> 0 then 0 else Suc (bit_length (n div 2)))"
  by pat_completeness auto
termination
  by (relation "measure nat") auto

declare bit_length.simps [simp del]

definition int_to_double :: "int \<Rightarrow> 64 word option" where
  "int_to_double i =
     (let a = \<bar>i\<bar>; b = bit_length a in
      if a = 0 then Some 0
      else
        let sh = b - 53;
            m0 = (if b \<le> 53 then a * 2 ^ (53 - b) else a div 2 ^ sh);
            r = (if b \<le> 53 then 0 else a mod 2 ^ sh);
            up = (53 < b \<and> (2 ^ sh < 2 * r \<or> (2 * r = 2 ^ sh \<and> odd m0)));
            m1 = (if up then m0 + 1 else m0);
            carry = (m1 = 2 ^ 53);
            m = (if carry then 2 ^ 52 else m1);
            E = int (if carry then b + 1 else b) + 1022
        in if 2047 \<le> E then None
           else Some (word_of_int ((if i < 0 then 2 ^ 63 else 0) + E * 2 ^ 52 + (m - 2 ^ 52))))"

text \<open>Python's \<open>repr\<close> of a float (a builtin, not code of this repository): the
  shortest decimal digits that read back to the same double, the closest to it when
  several are as short. The double is \<open>m * 2 ^ e\<close>; \<open>digits_at\<close> looks for digits
  \<open>d\<close> with \<open>d * 10 ^ q\<close> inside the rounding interval of the double (bounds included
  when \<open>m\<close> is even), and \<open>shortest_digits\<close> takes the largest such \<open>q\<close>
  among the exponents it is given. The double is below \<open>2 ^ (bit_length m + e)\<close>, hence
  below \<open>10 ^ q0\<close>, and 17 digits always read back: the exponents from \<open>q0\<close> down to
  \<open>q0 - 25\<close> hold the one looked for.\<close>

definition digits_at :: "int \<Rightarrow> int \<Rightarrow> bool \<Rightarrow> int \<Rightarrow> int option" where
  "digits_at m e boundary q =
     (let v4 = 4 * m;
          lo4 = v4 - (if boundary then 1 else 2);
          hi4 = v4 + 2;
          e2 = e - 2;
          A = 2 ^ nat e2 * 10 ^ nat (- q);
          B = 2 ^ nat (- e2) * 10 ^ nat q;
          dmin = (if even m then - ((- (lo4 * A)) div B) else (lo4 * A) div B + 1);
          dmax = (if even m then (hi4 * A) div B else - ((- (hi4 * A)) div B) - 1)
      in if dmin \<le> dmax \<and> 1 \<le> dmax then
           let q0 = (v4 * A) div B;
               r = (v4 * A) mod B;
               dn = q0 + (if B < 2 * r \<or> (2 * r = B \<and> odd q0) then 1 else 0)
           in Some (max dmin (min dmax dn))
         else None)"

fun shortest_digits :: "int \<Rightarrow> int \<Rightarrow> bool \<Rightarrow> int list \<Rightarrow> (int \<times> int) option" where
  "shortest_digits m e boundary [] = None"
| "shortest_digits m e boundary (q # qs) =
     (case digits_at m e boundary q of
        Some d \<Rightarrow> Some (d, q)
      | None \<Rightarrow> shortest_digits m e boundary qs)"

text \<open>The layout \<open>repr\<close> gives the digits: exponent notation when the decimal point
  falls more than 16 digits to the right or at least 4 zeros to the left.\<close>

definition format_repr :: "int \<Rightarrow> int \<Rightarrow> string" where
  "format_repr d q =
     (let ds = dec_digits d; n = int (length ds); decpt = n + q in
      if decpt \<le> - 4 \<or> 16 < decpt then
        let x = decpt - 1; ex = dec_digits \<bar>x\<bar> in
        take 1 ds @ (if 1 < n then ''.'' @ drop 1 ds else []) @ ''e''
          @ (if x < 0 then ''-'' else ''+'') @ (if length ex < 2 then ''0'' @ ex else ex)
      else if decpt \<le> 0 then ''0.'' @ replicate (nat (- decpt)) CHR ''0'' @ ds
      else if n \<le> decpt then ds @ replicate (nat (decpt - n)) CHR ''0'' @ ''.0''
      else take (nat decpt) ds @ ''.'' @ drop (nat decpt) ds)"

definition float_repr :: "64 word \<Rightarrow> string" where
  "float_repr w =
     (let E = uint (drop_bit 52 w) mod 2048;
          F = uint w mod 2 ^ 52;
          sign = (if bit w 63 then ''-'' else []);
          m = F + (if 0 < E then 2 ^ 52 else 0);
          e = max E 1 - 1075;
          q0 = (int (bit_length m) + e) * 30103 div 100000 + 1
      in if E = 2047 then (if F = 0 then sign @ ''inf'' else ''nan'')
         else if E = 0 \<and> F = 0 then sign @ ''0.0''
         else
           (case shortest_digits m e (F = 0 \<and> 1 < E) (rev [q0 - 25 .. q0]) of
              None \<Rightarrow> []
            | Some (d, q) \<Rightarrow> sign @ format_repr d q))"

text \<open>\<open>f"{value}"\<close>: what an f-string writes for the value of a constant.\<close>

fun py_str :: "pyval \<Rightarrow> string" where
  "py_str (CInt i) = str_int i"
| "py_str (CFloat w) = float_repr w"
| "py_str (CBool b) = (if b then ''True'' else ''False'')"
| "py_str (CStr s) = s"
| "py_str CNone = ''None''"
| "py_str CEllipsis = ''Ellipsis''"
| "py_str (COther s) = s"

text \<open>\<open>struct.pack("<d", value)\<close>, read back as the 64-bit pattern: floats, ints and
  bools are packed, anything else (and an int too large) raises \<open>struct.error\<close>.\<close>

fun pack_d :: "pyval \<Rightarrow> error + 64 word" where
  "pack_d (CFloat w) = Inr w"
| "pack_d (CInt i) = (case int_to_double i of None \<Rightarrow> Inl StructError | Some w \<Rightarrow> Inr w)"
| "pack_d (CBool b) =
     (case int_to_double (if b then 1 else 0) of None \<Rightarrow> Inl StructError | Some w \<Rightarrow> Inr w)"
| "pack_d _ = Inl StructError"

text \<open>\<open>float_to_hex\<close> of the source.\<close>

definition float_to_hex :: "pyval \<Rightarrow> error + string" where
  "float_to_hex f = (case pack_d f of Inl e \<Rightarrow> Inl e | Inr w \<Rightarrow> Inr (hex (uint w)))"

section \<open>Registers\<close>

text \<open>\<open>XMM_REGS = ["xmm{}".format(i) for i in range(16)]\<close>\<close>

definition XMM_REGS :: "string list" where
  "XMM_REGS = map (\<lambda>i. ''xmm'' @ str_int i) [0..15]"

definition GENERAL_REGS :: "string list" where
  "GENERAL_REGS = [''rdi'', ''rsi'', ''rdx'', ''rcx'', ''r8'', ''r9'']"

record RegisterAllocator =
  free_xmm :: "string list"
  used_xmm :: "string \<rightharpoonup> string"

text \<open>\<open>RegisterAllocator.__init__\<close>\<close>

definition RegisterAllocator_init :: RegisterAllocator where
  "RegisterAllocator_init = \<lparr>free_xmm = XMM_REGS, used_xmm = Map.empty\<rparr>"

text \<open>\<open>allocate_xmm\<close>: the register and the allocator after the call, or the
  \<open>RuntimeError\<close> raised when no register is free.\<close>

definition allocate_xmm ::
  "RegisterAllocator \<Rightarrow> string \<Rightarrow> error + (string \<times> RegisterAllocator)" where
  "allocate_xmm a name =
     (case used_xmm a name of
        Some reg \<Rightarrow> Inr (reg, a)
      | None \<Rightarrow>
          (case free_xmm a of
             [] \<Rightarrow> Inl RuntimeError
           | reg # rest \<Rightarrow>
               Inr (reg, a\<lparr>free_xmm := rest, used_xmm := (used_xmm a)(name \<mapsto> reg)\<rparr>)))"

definition free_all :: "RegisterAllocator \<Rightarrow> RegisterAllocator" where
  "free_all a = a\<lparr>free_xmm := XMM_REGS, used_xmm := Map.empty\<rparr>"


text \<open>No register is both free and assigned, and none is free twice.\<close>

definition pool_inv :: "RegisterAllocator \<Rightarrow> bool" where
  "pool_inv a \<longleftrightarrow> distinct (free_xmm a) \<and> set (free_xmm a) \<inter> ran (used_xmm a) = {}"

section \<open>The syntax tree\<close>

text \<open>The operator classes of \<open>ast.BinOp\<close>.\<close>

datatype operator =
    Add | Sub | Mult | Div | MatMult | Mod | Pow_op
  | LShift | RShift | BitOr | BitXor | BitAnd | FloorDiv

text \<open>The nodes of Python's \<open>ast\<close> the generator tells apart, with the fields it
  reads: \<open>Name(id)\<close>, \<open>Constant(value)\<close>, \<open>BinOp(left, op, right)\<close>,
  \<open>Call(func, args, keywords)\<close>, \<open>Return(value)\<close>, \<open>For(target, iter, body, orelse)\<close>,
  \<open>If(test, body, orelse)\<close> and \<open>FunctionDef\<close> with its name, the names of its
  parameters and its body. Any other node is \<open>Other cls children\<close>: its class name
  and its child nodes in field order, which is all the generic traversal reads.\<close>

datatype node =
    Name string
  | Constant pyval
  | BinOp node operator node
  | Call node "node list" "node list"
  | Return "node option"
  | For node node "node list" "node list"
  | If_node node "node list" "node list"
  | FunctionDef string "string list" "node list"
  | Other string "node list"

section \<open>The generator\<close>

record ASMGenerator =
  func_name :: string
  args :: "string list"
  lines :: "string list"
  reg_alloc :: RegisterAllocator
  loop_count :: int

definition ASMGenerator_init :: "string \<Rightarrow> string list \<Rightarrow> ASMGenerator" where
  "ASMGenerator_init name as =
     \<lparr>func_name = name, args = as, lines = [], reg_alloc = RegisterAllocator_init,
      loop_count = 0\<rparr>"

text \<open>\<open>self.lines.append(...)\<close>, for one or several lines in a row.\<close>

definition emit :: "ASMGenerator \<Rightarrow> string list \<Rightarrow> ASMGenerator" where
  "emit g ls = g\<lparr>lines := lines g @ ls\<rparr>"

definition generate_prologue :: "ASMGenerator \<Rightarrow> ASMGenerator" where
  "generate_prologue g =
     emit g [''section .text'',
             ''global '' @ func_name g,
             func_name g @ '':'',
             ''    ; Function prologue'',
             ''    push rbp'',
             ''    mov rbp, rsp'',
             ''    ; Assume float args in rdi, rsi, rdx, rcx, r8, r9'']"

definition generate_epilogue :: "ASMGenerator \<Rightarrow> ASMGenerator" where
  "generate_epilogue g =
     emit g [''    ; Function epilogue'', ''    pop rbp'', ''    ret'']"

text \<open>\<open>list.index\<close>: the first position of \<open>x\<close>, \<open>None\<close> where Python raises
  \<open>ValueError\<close>.\<close>

fun index_of :: "'a list \<Rightarrow> 'a \<Rightarrow> nat option" where
  "index_of [] x = None"
| "index_of (y # ys) x = (if y = x then Some 0 else map_option Suc (index_of ys x))"

text \<open>\<open>visit_Name\<close>: \<open>ValueError\<close> when the name is no parameter, \<open>IndexError\<close>
  when it is the seventh parameter or later, the allocator's error, or the register with
  one load line appended.\<close>

definition visit_Name :: "ASMGenerator \<Rightarrow> string \<Rightarrow> error + (string \<times> ASMGenerator)" where
  "visit_Name g ident =
     (case index_of (args g) ident of
        None \<Rightarrow> Inl ValueError
      | Some idx \<Rightarrow>
          if length GENERAL_REGS \<le> idx then Inl IndexError
          else
            let reg = GENERAL_REGS ! idx in
            (case allocate_xmm (reg_alloc g) ident of
               Inl e \<Rightarrow> Inl e
             | Inr (xmm, a) \<Rightarrow>
                 Inr (xmm, emit (g\<lparr>reg_alloc := a\<rparr>)
                   [''    movq '' @ xmm @ '', '' @ reg @ ''    ; Load argument '' @ ident])))"

definition visit_Constant :: "ASMGenerator \<Rightarrow> pyval \<Rightarrow> error + (string \<times> ASMGenerator)" where
  "visit_Constant g v =
     (case allocate_xmm (reg_alloc g) (''const_'' @ py_str v) of
        Inl e \<Rightarrow> Inl e
      | Inr (xmm, a) \<Rightarrow>
          (case float_to_hex v of
             Inl e \<Rightarrow> Inl e
           | Inr hexval \<Rightarrow>
               Inr (xmm, emit (g\<lparr>reg_alloc := a\<rparr>)
                 [''    mov rax, '' @ hexval @ ''    ; Load constant '' @ py_str v,
                  ''    movq '' @ xmm @ '', rax''])))"

fun binop_to_asm :: "operator \<Rightarrow> string \<Rightarrow> string \<Rightarrow> error + string" where
  "binop_to_asm Add left right = Inr (''    addsd '' @ left @ '', '' @ right @ ''    ; add'')"
| "binop_to_asm Sub left right = Inr (''    subsd '' @ left @ '', '' @ right @ ''    ; sub'')"
| "binop_to_asm Mult left right = Inr (''    mulsd '' @ left @ '', '' @ right @ ''    ; mul'')"
| "binop_to_asm Div left right = Inr (''    divsd '' @ left @ '', '' @ right @ ''    ; div'')"
| "binop_to_asm _ left right = Inl NotImplementedError"

text \<open>The visitor. \<open>visit\<close> is the dispatch of \<open>ast.NodeVisitor.visit\<close>: the
  method \<open>visit_<Class>\<close> where the generator has one, \<open>generic_visit\<close> otherwise.
  Its equations for \<open>FunctionDef\<close> and \<open>Return\<close> are \<open>visit_FunctionDef\<close> and
  \<open>visit_Return\<close>; \<open>Return None\<close> is a bare \<open>return\<close>, where \<open>self.visit(None)\<close>
  raises \<open>AttributeError\<close>. \<open>visit_all\<close> is the loop
  \<open>for stmt in body: self.visit(stmt)\<close>. \<open>visit_BinOp\<close> and \<open>visit_For\<close> take the
  node; on a node of another class the attribute they read first is missing.
  \<open>generic_visit\<close> visits the child nodes in field order.\<close>

fun visit :: "ASMGenerator \<Rightarrow> node \<Rightarrow> error + ASMGenerator"
  and visit_all :: "ASMGenerator \<Rightarrow> node list \<Rightarrow> error + ASMGenerator"
  and evaluate_node :: "ASMGenerator \<Rightarrow> node \<Rightarrow> error + (string \<times> ASMGenerator)"
  and visit_BinOp :: "ASMGenerator \<Rightarrow> node \<Rightarrow> error + ASMGenerator"
  and visit_For :: "ASMGenerator \<Rightarrow> node \<Rightarrow> error + ASMGenerator"
  and generic_visit :: "ASMGenerator \<Rightarrow> node \<Rightarrow> error + ASMGenerator"
where
  "visit g (FunctionDef name as body) =
     (case visit_all (generate_prologue g) body of
        Inl e \<Rightarrow> Inl e
      | Inr g' \<Rightarrow> Inr (generate_epilogue g'))"
| "visit g (Return None) = Inl AttributeError"
| "visit g (Return (Some v)) = visit g v"
| "visit g (BinOp l op r) = visit_BinOp g (BinOp l op r)"
| "visit g (Name ident) = map_sum id snd (visit_Name g ident)"
| "visit g (Constant v) = map_sum id snd (visit_Constant g v)"
| "visit g (For target iter body orelse) = visit_For g (For target iter body orelse)"
| "visit g (If_node test body orelse) = generic_visit g (If_node test body orelse)"
| "visit g (Call func cargs keywords) = generic_visit g (Call func cargs keywords)"
| "visit g (Other cls children) = generic_visit g (Other cls children)"

| "visit_all g [] = Inr g"
| "visit_all g (stmt # stmts) =
     (case visit g stmt of
        Inl e \<Rightarrow> Inl e
      | Inr g' \<Rightarrow> visit_all g' stmts)"

| "evaluate_node g (BinOp l op r) =
     (case visit_BinOp g (BinOp l op r) of
        Inl e \<Rightarrow> Inl e
      | Inr g' \<Rightarrow>
          (case allocate_xmm (reg_alloc g') ''tmp'' of
             Inl e \<Rightarrow> Inl e
           | Inr (xmm, a) \<Rightarrow> Inr (xmm, g'\<lparr>reg_alloc := a\<rparr>)))"
| "evaluate_node g (Name ident) = visit_Name g ident"
| "evaluate_node g (Constant v) = visit_Constant g v"
| "evaluate_node g _ = Inl NotImplementedError"

| "visit_BinOp g (BinOp l op r) =
     (case evaluate_node g l of
        Inl e \<Rightarrow> Inl e
      | Inr (left, g1) \<Rightarrow>
          (case evaluate_node g1 r of
             Inl e \<Rightarrow> Inl e
           | Inr (right, g2) \<Rightarrow>
               (case binop_to_asm op left right of
                  Inl e \<Rightarrow> Inl e
                | Inr op_line \<Rightarrow> Inr (emit g2 [op_line]))))"
| "visit_BinOp g _ = Inl AttributeError"

| "visit_For g (For target iter body orelse) =
     (let loop_id = loop_count g + 1;
          g0 = emit (g\<lparr>loop_count := loop_id\<rparr>) [''    ; Begin loop '' @ str_int loop_id];
          end_loop = (\<lambda>g'. emit g' [''    ; End loop '' @ str_int loop_id])
      in case target of
           Name tid \<Rightarrow>
             (case iter of
                Call func cargs keywords \<Rightarrow>
                  (case func of
                     Name fid \<Rightarrow>
                       if fid = ''range'' then
                         (case cargs of
                            [] \<Rightarrow> Inl IndexError
                          | range_arg # _ \<Rightarrow>
                              let n_var = (case range_arg of
                                             Name ident \<Rightarrow> ident
                                           | Constant v \<Rightarrow> py_str v
                                           | _ \<Rightarrow> ''n'');
                                  g1 = emit g0 [''    mov rcx, '' @ n_var @ ''    ; loop counter'',
                                                ''loop_'' @ str_int loop_id @ '':'']
                              in (case visit_all g1 body of
                                    Inl e \<Rightarrow> Inl e
                                  | Inr g2 \<Rightarrow>
                                      Inr (end_loop (emit g2 [''    dec rcx'',
                                             ''    jnz loop_'' @ str_int loop_id]))))
                       else Inr (end_loop g0)
                   | _ \<Rightarrow> Inl AttributeError)
              | _ \<Rightarrow> Inr (end_loop g0))
         | _ \<Rightarrow> Inl AttributeError)"
| "visit_For g _ = Inl AttributeError"

| "generic_visit g (If_node test body orelse) =
     (case visit g test of
        Inl e \<Rightarrow> Inl e
      | Inr g1 \<Rightarrow>
          (case visit_all g1 body of
             Inl e \<Rightarrow> Inl e
           | Inr g2 \<Rightarrow> visit_all g2 orelse))"
| "generic_visit g (Call func cargs keywords) =
     (case visit g func of
        Inl e \<Rightarrow> Inl e
      | Inr g1 \<Rightarrow>
          (case visit_all g1 cargs of
             Inl e \<Rightarrow> Inl e
           | Inr g2 \<Rightarrow> visit_all g2 keywords))"
| "generic_visit g (Other cls children) = visit_all g children"
| "generic_visit g (BinOp l op r) =
     (case visit g l of
        Inl e \<Rightarrow> Inl e
      | Inr g1 \<Rightarrow> visit g1 r)"
| "generic_visit g (Return None) = Inr g"
| "generic_visit g (Return (Some v)) = visit g v"
| "generic_visit g (For target iter body orelse) =
     (case visit g target of
        Inl e \<Rightarrow> Inl e
      | Inr g1 \<Rightarrow>
          (case visit g1 iter of
             Inl e \<Rightarrow> Inl e
           | Inr g2 \<Rightarrow>
               (case visit_all g2 body of
                  Inl e \<Rightarrow> Inl e
                | Inr g3 \<Rightarrow> visit_all g3 orelse)))"
| "generic_visit g (FunctionDef name as body) = visit_all g body"
| "generic_visit g (Name ident) = Inr g"
| "generic_visit g (Constant v) = Inr g"

text \<open>\<open>"\n".join(gen.lines)\<close>\<close>

definition join_lines :: "string list \<Rightarrow> string" where
  "join_lines ls = (case ls of [] \<Rightarrow> [] | l # rest \<Rightarrow> l @ concat (map (\<lambda>x. CHR 0x0A # x) rest))"

text \<open>\<open>transpile_to_asm\<close>, from the parsed function (its name, parameter names and
  body) to the text written to the \<open>.asm\<close> file.\<close>

definition transpile_to_asm :: "string \<Rightarrow> string list \<Rightarrow> node list \<Rightarrow> error + string" where
  "transpile_to_asm name as body =
     (case visit (ASMGenerator_init name as) (FunctionDef name as body) of
        Inl e \<Rightarrow> Inl e
      | Inr g \<Rightarrow> Inr (join_lines (lines g)))"

section \<open>Notions for stating the properties\<close>

text \<open>Names for the pieces of what \<open>visit_For\<close> does: the choice of \<open>n_var\<close>,
  the generator after the begin line, after the counter and label lines, after the
  closing lines of a counted loop, and after a loop that was skipped.\<close>

definition n_var :: "node \<Rightarrow> string" where
  "n_var range_arg =
     (case range_arg of Name ident \<Rightarrow> ident | Constant v \<Rightarrow> py_str v | _ \<Rightarrow> ''n'')"

definition loop_begin :: "ASMGenerator \<Rightarrow> ASMGenerator" where
  "loop_begin g =
     emit (g\<lparr>loop_count := loop_count g + 1\<rparr>)
       [''    ; Begin loop '' @ str_int (loop_count g + 1)]"

definition loop_head :: "ASMGenerator \<Rightarrow> node \<Rightarrow> ASMGenerator" where
  "loop_head g range_arg =
     emit (loop_begin g)
       [''    mov rcx, '' @ n_var range_arg @ ''    ; loop counter'',
        ''loop_'' @ str_int (loop_count g + 1) @ '':'']"

definition loop_tail :: "int \<Rightarrow> ASMGenerator \<Rightarrow> ASMGenerator" where
  "loop_tail loop_id g =
     emit (emit g [''    dec rcx'', ''    jnz loop_'' @ str_int loop_id])
       [''    ; End loop '' @ str_int loop_id]"

definition loop_skip :: "ASMGenerator \<Rightarrow> ASMGenerator" where
  "loop_skip g = emit (loop_begin g) [''    ; End loop '' @ str_int (loop_count g + 1)]"

text \<open>Distinct keys hold distinct registers.\<close>

definition keys_distinct :: "RegisterAllocator \<Rightarrow> bool" where
  "keys_distinct a \<longleftrightarrow> inj_on (used_xmm a) (dom (used_xmm a))"

text \<open>\<open>extends g g'\<close>: what every later state \<open>g'\<close> of the compilation that went
  through \<open>g\<close> satisfies. The function name and parameters are the same, the lines of
  \<open>g\<close> are a prefix of those of \<open>g'\<close>, the loop counter has not gone down, every
  key bound in \<open>g\<close> is bound to the same register in \<open>g'\<close>, and the invariants of the
  pool have been kept.\<close>

definition extends :: "ASMGenerator \<Rightarrow> ASMGenerator \<Rightarrow> bool" where
  "extends g g' \<longleftrightarrow>
     func_name g' = func_name g \<and> args g' = args g \<and>
     prefix (lines g) (lines g') \<and>
     loop_count g \<le> loop_count g' \<and>
     used_xmm (reg_alloc g) \<subseteq>\<^sub>m used_xmm (reg_alloc g') \<and>
     (pool_inv (reg_alloc g) \<longrightarrow> pool_inv (reg_alloc g')) \<and>
     (pool_inv (reg_alloc g) \<and> keys_distinct (reg_alloc g) \<longrightarrow> keys_distinct (reg_alloc g'))"


text \<open>The label line of the loop with a given id.\<close>

definition loop_label :: "int \<Rightarrow> string" where
  "loop_label loop_id = ''loop_'' @ str_int loop_id @ '':''"

text \<open>\<open>fresh_labels g g'\<close>: \<open>g'\<close> is a later state of the compilation that went through
  \<open>g\<close>, and every label line added from \<open>g\<close> to \<open>g'\<close> carries a loop id handed out
  in between, provided the label of the function is not itself the text of a loop
  label.\<close>

definition fresh_labels :: "ASMGenerator \<Rightarrow> ASMGenerator \<Rightarrow> bool" where
  "fresh_labels g g' \<longleftrightarrow>
     extends g g' \<and>
     ((\<forall>k. func_name g @ '':'' \<noteq> loop_label k) \<longrightarrow>
      (\<forall>k. loop_label k \<in> set (drop (length (lines g)) (lines g')) \<longrightarrow>
           loop_count g < k \<and> k \<le> loop_count g'))"

section \<open>The register pool\<close>

lemma XMM_REGS_eq:
  "XMM_REGS = [''xmm0'', ''xmm1'', ''xmm2'', ''xmm3'', ''xmm4'', ''xmm5'', ''xmm6'', ''xmm7'',
     ''xmm8'', ''xmm9'', ''xmm10'', ''xmm11'', ''xmm12'', ''xmm13'', ''xmm14'', ''xmm15'']"
  unfolding XMM_REGS_def by code_simp


lemma distinct_XMM_REGS: "distinct XMM_REGS"
  unfolding XMM_REGS_eq by simp




lemma pool_inv_init: "pool_inv RegisterAllocator_init"
  by (simp add: pool_inv_def RegisterAllocator_init_def distinct_XMM_REGS)

lemma pool_inv_free_all: "pool_inv (free_all a)"
  by (simp add: pool_inv_def free_all_def distinct_XMM_REGS)

lemma pool_inv_allocate:
  assumes "pool_inv a" and "allocate_xmm a k = Inr (r, a')"
  shows "pool_inv a'"
proof (cases "used_xmm a k")
  case (Some reg)
  then show ?thesis using assms by (simp add: allocate_xmm_def)
next
  case None
  show ?thesis
  proof (cases "free_xmm a")
    case Nil
    then show ?thesis using assms None by (simp add: allocate_xmm_def)
  next
    case (Cons reg rest)
    then have a': "a' = a\<lparr>free_xmm := rest, used_xmm := (used_xmm a)(k \<mapsto> reg)\<rparr>"
      using assms None by (auto simp: allocate_xmm_def)
    have "ran ((used_xmm a)(k \<mapsto> reg)) \<subseteq> insert reg (ran (used_xmm a))"
      by (auto simp: ran_def)
    then show ?thesis using assms(1) Cons unfolding a' pool_inv_def by auto
  qed
qed

lemma allocate_map_le:
  "allocate_xmm a k = Inr (r, a') \<Longrightarrow> used_xmm a \<subseteq>\<^sub>m used_xmm a'"
  by (auto simp: allocate_xmm_def map_le_def split: option.splits list.splits)

section \<open>The cases of \<open>visit_For\<close>\<close>

lemma visit_For_range:
  "visit_For g (For (Name t) (Call (Name ''range'') (a # as) kws) body orelse) =
     (case visit_all (loop_head g a) body of
        Inl e \<Rightarrow> Inl e
      | Inr g2 \<Rightarrow> Inr (loop_tail (loop_count g + 1) g2))"
  unfolding loop_head_def loop_begin_def loop_tail_def n_var_def
  by (simp add: Let_def split: sum.split)

lemma visit_For_range_no_args:
  "visit_For g (For (Name t) (Call (Name ''range'') [] kws) body orelse) = Inl IndexError"
  by (simp add: Let_def)

lemma visit_For_other_call:
  "fid \<noteq> ''range'' \<Longrightarrow>
   visit_For g (For (Name t) (Call (Name fid) as kws) body orelse) = Inr (loop_skip g)"
  by (simp add: Let_def loop_skip_def loop_begin_def)

lemma visit_For_call_no_name:
  "(\<And>fid. func \<noteq> Name fid) \<Longrightarrow>
   visit_For g (For (Name t) (Call func as kws) body orelse) = Inl AttributeError"
  by (cases func) (auto simp: Let_def)

lemma visit_For_no_call:
  "(\<And>func as kws. iter \<noteq> Call func as kws) \<Longrightarrow>
   visit_For g (For (Name t) iter body orelse) = Inr (loop_skip g)"
  by (cases iter) (auto simp: Let_def loop_skip_def loop_begin_def)

lemma visit_For_target_no_name:
  "(\<And>tid. target \<noteq> Name tid) \<Longrightarrow>
   visit_For g (For target iter body orelse) = Inl AttributeError"
  by (cases target) (auto simp: Let_def)

lemma visit_For_no_For:
  "(\<And>t i b e. n \<noteq> For t i b e) \<Longrightarrow> visit_For g n = Inl AttributeError"
  by (cases n) auto

lemma visit_For_InrE [consumes 1, case_names range skip]:
  assumes "visit_For g n = Inr g'"
  obtains
    (range) t a as kws body orelse g2
      where "n = For (Name t) (Call (Name ''range'') (a # as) kws) body orelse"
        and "visit_all (loop_head g a) body = Inr g2"
        and "g' = loop_tail (loop_count g + 1) g2"
  | (skip) t iter body orelse
      where "n = For (Name t) iter body orelse" and "g' = loop_skip g"
proof -
  from assms obtain target iter body orelse where n: "n = For target iter body orelse"
    using visit_For_no_For [of n g] by fastforce
  from assms n obtain t where t: "target = Name t"
    using visit_For_target_no_name [of target g iter body orelse] by fastforce
  show thesis
  proof (cases "\<exists>func as kws. iter = Call func as kws")
    case False
    then have "visit_For g n = Inr (loop_skip g)"
      unfolding n t using visit_For_no_call [of iter g t body orelse] by blast
    then show thesis using skip [of t iter body orelse] assms n t by simp
  next
    case True
    then obtain func as kws where iter: "iter = Call func as kws" by blast
    from assms obtain fid where func: "func = Name fid"
      unfolding n t iter using visit_For_call_no_name [of func g t as kws body orelse]
      by fastforce
    show thesis
    proof (cases "fid = ''range''")
      case False
      then have "visit_For g n = Inr (loop_skip g)"
        unfolding n t iter func by (rule visit_For_other_call)
      then show thesis using skip [of t iter body orelse] assms n t by simp
    next
      case True
      from assms obtain a as' where as: "as = a # as'"
        unfolding n t iter func True using visit_For_range_no_args [of g t kws body orelse]
        by (cases as) auto
      from assms obtain g2 where "visit_all (loop_head g a) body = Inr g2"
        and "g' = loop_tail (loop_count g + 1) g2"
        unfolding n t iter func True as visit_For_range by (auto split: sum.splits)
      then show thesis using range [of t a as' kws body orelse g2] n t iter func True as
        by simp
    qed
  qed
qed

section \<open>One induction for every property kept along a traversal\<close>

text \<open>A relation between generator states that holds across each primitive step of
  the visitor, and is reflexive and transitive, holds across every visit that returns.\<close>

lemma visit_steps:
  assumes R_refl: "\<And>g. R g g"
    and R_trans: "\<And>g1 g2 g3. R g1 g2 \<Longrightarrow> R g2 g3 \<Longrightarrow> R g1 g3"
    and R_pro: "\<And>g. R g (generate_prologue g)"
    and R_epi: "\<And>g. R g (generate_epilogue g)"
    and R_name: "\<And>g x r g'. visit_Name g x = Inr (r, g') \<Longrightarrow> R g g'"
    and R_const: "\<And>g v r g'. visit_Constant g v = Inr (r, g') \<Longrightarrow> R g g'"
    and R_op: "\<And>g op l r ln. binop_to_asm op l r = Inr ln \<Longrightarrow> R g (emit g [ln])"
    and R_tmp: "\<And>g r a. allocate_xmm (reg_alloc g) ''tmp'' = Inr (r, a) \<Longrightarrow>
                  R g (g\<lparr>reg_alloc := a\<rparr>)"
    and R_head: "\<And>g a. R g (loop_head g a)"
    and R_tail: "\<And>g i. R g (loop_tail i g)"
    and R_skip: "\<And>g. R g (loop_skip g)"
  shows "visit g n = Inr g' \<Longrightarrow> R g g'"
    and "visit_all g ns = Inr g' \<Longrightarrow> R g g'"
    and "evaluate_node g n = Inr (reg, g') \<Longrightarrow> R g g'"
    and "visit_BinOp g n = Inr g' \<Longrightarrow> R g g'"
    and "visit_For g n = Inr g' \<Longrightarrow> R g g'"
    and "generic_visit g n = Inr g' \<Longrightarrow> R g g'"
proof (induction g n and g ns and g n and g n and g n and g n
    arbitrary: g' and g' and reg g' and g' and g' and g'
    rule: visit_visit_all_evaluate_node_visit_BinOp_visit_For_generic_visit.induct)
  case (1 g name as body)
  then obtain g2 where b: "visit_all (generate_prologue g) body = Inr g2"
    and g': "g' = generate_epilogue g2"
    by (auto split: sum.splits)
  have "R (generate_prologue g) g2" using "1.IH" [OF b] .
  then show ?case unfolding g' using R_pro R_epi R_trans by blast
next
  case (5 g ident)
  then show ?case using R_name by (cases "visit_Name g ident") auto
next
  case (6 g v)
  then show ?case using R_const by (cases "visit_Constant g v") auto
next
  case (12 g stmt stmts)
  then show ?case by (auto split: sum.splits intro: R_trans)
next
  case (13 g l op r)
  then obtain g1 where b: "visit_BinOp g (BinOp l op r) = Inr g1"
    and a: "allocate_xmm (reg_alloc g1) ''tmp'' = Inr (reg, reg_alloc g')"
    and g': "g' = g1\<lparr>reg_alloc := reg_alloc g'\<rparr>"
    by (auto split: sum.splits)
  have "R g g1" using "13.IH" [OF b] .
  moreover have "R g1 g'" using R_tmp [OF a] g' by simp
  ultimately show ?case using R_trans by blast
next
  case (14 g ident)
  then show ?case using R_name by auto
next
  case (15 g v)
  then show ?case using R_const by auto
next
  case (17 g l op r)
  from "17.prems" obtain left g1 right g2 op_line
    where l: "evaluate_node g l = Inr (left, g1)"
      and r: "evaluate_node g1 r = Inr (right, g2)"
      and o: "binop_to_asm op left right = Inr op_line"
      and g': "g' = emit g2 [op_line]"
    by (auto split: sum.splits)
  have "R g g1" using "17.IH"(1) [OF l] .
  moreover have "R g1 g2" using "17.IH"(2) [OF l refl r] .
  ultimately show ?case unfolding g' using R_trans R_op [OF o] by blast
next
  case (19 g target iter body orelse)
  from "19.prems" show ?case
  proof (cases rule: visit_For_InrE)
    case (range t a as kws body' orelse' g2)
    then have eqs: "target = Name t" "iter = Call (Name ''range'') (a # as) kws" "body' = body"
      by simp_all
    have "R (loop_head g a) g2"
      using "19.IH" [OF refl refl refl eqs(1) eqs(2) refl refl refl refl refl, of g2] range(2)
      unfolding eqs loop_head_def loop_begin_def n_var_def by simp
    then show ?thesis unfolding range(3) using R_head R_tail R_trans by blast
  next
    case (skip t iter' body' orelse')
    then show ?thesis using R_skip by simp
  qed
next
  case (21 g test body orelse)
  then show ?case by (auto split: sum.splits) (blast intro: R_trans)
next
  case (22 g func cargs kws)
  then show ?case by (auto split: sum.splits) (blast intro: R_trans)
next
  case (24 g l op r)
  then show ?case by (auto split: sum.splits) (blast intro: R_trans)
next
  case (27 g target iter body orelse)
  then show ?case by (auto split: sum.splits) (blast intro: R_trans)
qed (auto intro: R_refl)

section \<open>Later states of one compilation\<close>

lemma allocate_binds:
  "allocate_xmm a k = Inr (r, a') \<Longrightarrow> used_xmm a' k = Some r"
  by (auto simp: allocate_xmm_def split: option.splits list.splits)

lemma keys_distinct_allocate:
  assumes "pool_inv a" and "keys_distinct a" and "allocate_xmm a k = Inr (r, a')"
  shows "keys_distinct a'"
proof (cases "used_xmm a k")
  case (Some reg)
  then show ?thesis using assms by (simp add: allocate_xmm_def)
next
  case None
  show ?thesis
  proof (cases "free_xmm a")
    case Nil
    then show ?thesis using assms None by (simp add: allocate_xmm_def)
  next
    case (Cons reg rest)
    then have a': "a' = a\<lparr>free_xmm := rest, used_xmm := (used_xmm a)(k \<mapsto> reg)\<rparr>"
      using assms None by (auto simp: allocate_xmm_def)
    have "reg \<notin> ran (used_xmm a)" using assms(1) Cons by (auto simp: pool_inv_def)
    then have new: "used_xmm a x \<noteq> Some reg" for x by (auto simp: ran_def)
    show ?thesis
      unfolding keys_distinct_def a' using assms(2) new
      by (auto simp: keys_distinct_def inj_on_def dom_def)
  qed
qed

lemma extends_refl: "extends g g"
  by (simp add: extends_def)

lemma extends_trans: "extends g1 g2 \<Longrightarrow> extends g2 g3 \<Longrightarrow> extends g1 g3"
  unfolding extends_def
  by (auto intro: map_le_trans prefix_order.trans)

lemma extends_emit: "extends g (emit g ls)"
  by (simp add: extends_def emit_def)

lemma extends_loop_begin: "extends g (loop_begin g)"
  by (simp add: extends_def emit_def loop_begin_def)

lemma extends_allocate:
  assumes "allocate_xmm (reg_alloc g) k = Inr (r, a)"
  shows "extends g (g\<lparr>reg_alloc := a\<rparr>)"
  using assms allocate_map_le [OF assms] pool_inv_allocate [OF _ assms]
    keys_distinct_allocate [OF _ _ assms]
  by (auto simp: extends_def)

lemma extends_visit_Name:
  assumes "visit_Name g x = Inr (r, g')"
  shows "extends g g'"
proof -
  from assms obtain a ls where a: "allocate_xmm (reg_alloc g) x = Inr (r, a)"
    and g': "g' = emit (g\<lparr>reg_alloc := a\<rparr>) ls"
    by (auto simp: visit_Name_def Let_def split: option.splits if_splits sum.splits)
  show ?thesis
    unfolding g' using extends_trans [OF extends_allocate [OF a] extends_emit] .
qed

lemma extends_visit_Constant:
  assumes "visit_Constant g v = Inr (r, g')"
  shows "extends g g'"
proof -
  from assms obtain a ls
    where a: "allocate_xmm (reg_alloc g) (''const_'' @ py_str v) = Inr (r, a)"
    and g': "g' = emit (g\<lparr>reg_alloc := a\<rparr>) ls"
    by (auto simp: visit_Constant_def split: sum.splits)
  show ?thesis
    unfolding g' using extends_trans [OF extends_allocate [OF a] extends_emit] .
qed

lemma extends_visit:
  shows "visit g n = Inr g' \<Longrightarrow> extends g g'"
    and "visit_all g ns = Inr g' \<Longrightarrow> extends g g'"
    and "evaluate_node g n = Inr (reg, g') \<Longrightarrow> extends g g'"
    and "visit_BinOp g n = Inr g' \<Longrightarrow> extends g g'"
    and "visit_For g n = Inr g' \<Longrightarrow> extends g g'"
    and "generic_visit g n = Inr g' \<Longrightarrow> extends g g'"
proof -
  have pro: "extends g (generate_prologue g)" for g
    unfolding generate_prologue_def by (rule extends_emit)
  have epi: "extends g (generate_epilogue g)" for g
    unfolding generate_epilogue_def by (rule extends_emit)
  have head: "extends g (loop_head g a)" for g a
    unfolding loop_head_def by (rule extends_trans [OF extends_loop_begin extends_emit])
  have tail: "extends g (loop_tail i g)" for g i
    unfolding loop_tail_def by (rule extends_trans [OF extends_emit extends_emit])
  have skip: "extends g (loop_skip g)" for g
    unfolding loop_skip_def by (rule extends_trans [OF extends_loop_begin extends_emit])
  note steps = visit_steps [where R = extends, OF extends_refl extends_trans pro epi
      extends_visit_Name extends_visit_Constant extends_emit extends_allocate head tail skip]
  show "visit g n = Inr g' \<Longrightarrow> extends g g'"
    and "visit_all g ns = Inr g' \<Longrightarrow> extends g g'"
    and "evaluate_node g n = Inr (reg, g') \<Longrightarrow> extends g g'"
    and "visit_BinOp g n = Inr g' \<Longrightarrow> extends g g'"
    and "visit_For g n = Inr g' \<Longrightarrow> extends g g'"
    and "generic_visit g n = Inr g' \<Longrightarrow> extends g g'"
    by (rule steps; assumption)+
qed

section \<open>Evaluating the generator on a given tree\<close>

lemmas gen_eval =
  ASMGenerator_init_def RegisterAllocator_init_def XMM_REGS_eq GENERAL_REGS_def
  visit_Name_def visit_Constant_def allocate_xmm_def emit_def Let_def
  generate_prologue_def generate_epilogue_def

lemma visit_all_append:
  "visit_all g (xs @ ys) =
     (case visit_all g xs of Inl e \<Rightarrow> Inl e | Inr g' \<Rightarrow> visit_all g' ys)"
  by (induction xs arbitrary: g) (auto split: sum.splits)

lemma evaluate_node_BinOp_Inr:
  assumes "evaluate_node g (BinOp l op r) = Inr (reg, g')"
  obtains h a where "visit_BinOp g (BinOp l op r) = Inr h"
    and "allocate_xmm (reg_alloc h) ''tmp'' = Inr (reg, a)"
    and "g' = h\<lparr>reg_alloc := a\<rparr>"
  using assms by (auto simp del: visit_BinOp.simps split: sum.splits)

section \<open>The order in which registers are handed out\<close>




section \<open>Constants and their keys\<close>

lemma pool_inv_fresh_generator:
  "pool_inv (reg_alloc (ASMGenerator_init name as)) \<and>
   keys_distinct (reg_alloc (ASMGenerator_init name as))"
  by (simp add: ASMGenerator_init_def pool_inv_init)
    (simp add: keys_distinct_def RegisterAllocator_init_def)

lemma visit_Constant_binds:
  assumes "visit_Constant g v = Inr (r, g')"
  shows "used_xmm (reg_alloc g') (''const_'' @ py_str v) = Some r"
proof -
  from assms obtain a where "allocate_xmm (reg_alloc g) (''const_'' @ py_str v) = Inr (r, a)"
    and "reg_alloc g' = a"
    by (auto simp: visit_Constant_def emit_def split: sum.splits)
  then show ?thesis using allocate_binds by blast
qed

lemma str_int_1: "str_int 1 = ''1''"
  by code_simp

lemma float_repr_1: "float_repr 0x3FF0000000000000 = ''1.0''"
  by code_simp

lemma float_repr_1_5: "float_repr 0x3FF8000000000000 = ''1.5''"
  by code_simp

lemma float_repr_2_5: "float_repr 0x4004000000000000 = ''2.5''"
  by code_simp

lemma int_to_double_1: "int_to_double 1 = Some 0x3FF0000000000000"
  by code_simp

lemma hex_1: "hex 0x3FF0000000000000 = ''0x3ff0000000000000''"
  by code_simp

lemma hex_1_5: "hex 0x3FF8000000000000 = ''0x3ff8000000000000''"
  by code_simp

lemma hex_2_5: "hex 0x4004000000000000 = ''0x4004000000000000''"
  by code_simp

lemmas const_eval =
  visit_Constant_def float_to_hex_def str_int_1 float_repr_1 float_repr_1_5 float_repr_2_5
  int_to_double_1 hex_1 hex_1_5 hex_2_5 ASMGenerator_init_def RegisterAllocator_init_def
  XMM_REGS_eq allocate_xmm_def emit_def

section \<open>Decimal texts of distinct ints are distinct\<close>

lemma of_char_digit:
  assumes "d < 10"
  shows "(of_char (digit d) :: int) = 48 + int d"
proof -
  from assms have "d \<in> {0, 1, 2, 3, 4, 5, 6, 7, 8, 9}" by auto
  then show ?thesis by (auto simp: digit_def hex_digits_def)
qed

lemma digit_not_minus: "d < 10 \<Longrightarrow> digit d \<noteq> CHR ''-''"
  using of_char_digit [of d] by auto

lemma undigits_dec_digits:
  "0 \<le> n \<Longrightarrow> foldl (\<lambda>a c. 10 * a + (of_char c - 48)) 0 (dec_digits n) = n"
proof (induction n rule: dec_digits.induct)
  case (1 n)
  show ?case
  proof (cases "n < 10")
    case True
    then have "nat n < 10" using "1.prems" by simp
    then show ?thesis
      using True "1.prems" of_char_digit [of "nat n"] by (subst dec_digits.simps) simp
  next
    case False
    have m: "nat (n mod 10) < 10" by simp
    have "foldl (\<lambda>a c. 10 * a + (of_char c - 48)) 0 (dec_digits (n div 10)) = n div 10"
      using "1.IH" [OF False] "1.prems" by simp
    then show ?thesis
      using False of_char_digit [OF m] by (subst dec_digits.simps) simp
  qed
qed

lemma dec_digits_inj:
  assumes "0 \<le> m" and "0 \<le> n" and "dec_digits m = dec_digits n"
  shows "m = n"
proof -
  have "m = foldl (\<lambda>a c. 10 * a + (of_char c - 48)) 0 (dec_digits m)"
    using undigits_dec_digits [OF assms(1)] by (rule sym)
  also have "\<dots> = foldl (\<lambda>a c. 10 * a + (of_char c - 48)) 0 (dec_digits n)"
    by (simp only: assms(3))
  also have "\<dots> = n" using undigits_dec_digits [OF assms(2)] .
  finally show ?thesis .
qed

lemma dec_digits_no_minus: "0 \<le> n \<Longrightarrow> CHR ''-'' \<notin> set (dec_digits n)"
proof (induction n rule: dec_digits.induct)
  case (1 n)
  show ?case
  proof (cases "n < 10")
    case True
    then have "nat n < 10" using "1.prems" by simp
    then have "digit (nat n) \<noteq> CHR ''-''" by (rule digit_not_minus)
    then show ?thesis using True by (subst dec_digits.simps) auto
  next
    case False
    have m: "nat (n mod 10) < 10" by simp
    have "CHR ''-'' \<notin> set (dec_digits (n div 10))"
      using "1.IH" [OF False] "1.prems" by simp
    then show ?thesis
      using False digit_not_minus [OF m] by (subst dec_digits.simps) auto
  qed
qed

lemma str_int_inj:
  assumes "str_int i = str_int j"
  shows "i = j"
proof -
  consider "i < 0" "j < 0" | "i < 0" "0 \<le> j" | "0 \<le> i" "j < 0" | "0 \<le> i" "0 \<le> j"
    by linarith
  then show ?thesis
  proof cases
    case 1
    then have "dec_digits (- i) = dec_digits (- j)" using assms by (simp add: str_int_def)
    then show ?thesis using dec_digits_inj [of "- i" "- j"] 1 by simp
  next
    case 2
    then have "CHR ''-'' # dec_digits (- i) = dec_digits j"
      using assms by (simp add: str_int_def)
    then have "CHR ''-'' \<in> set (dec_digits j)" by (metis list.set_intros(1))
    then show ?thesis using dec_digits_no_minus 2 by blast
  next
    case 3
    then have "dec_digits i = CHR ''-'' # dec_digits (- j)"
      using assms by (simp add: str_int_def)
    then have "CHR ''-'' \<in> set (dec_digits i)" by (metis list.set_intros(1))
    then show ?thesis using dec_digits_no_minus 3 by blast
  next
    case 4
    then show ?thesis using assms dec_digits_inj by (simp add: str_int_def)
  qed
qed

lemma loop_label_inj: "loop_label i = loop_label j \<Longrightarrow> i = j"
  by (simp add: loop_label_def str_int_inj)

section \<open>Label lines\<close>

lemma fresh_labels_refl: "fresh_labels g g"
  by (simp add: fresh_labels_def extends_refl)

lemma fresh_labels_trans:
  assumes "fresh_labels g1 g2" and "fresh_labels g2 g3"
  shows "fresh_labels g1 g3"
proof -
  have e12: "extends g1 g2" and e23: "extends g2 g3"
    using assms by (simp_all add: fresh_labels_def)
  have "prefix (lines g1) (lines g2)" and "prefix (lines g2) (lines g3)"
    using e12 e23 by (simp_all add: extends_def)
  then obtain n1 n2 where l2: "lines g2 = lines g1 @ n1" and l3: "lines g3 = lines g2 @ n2"
    unfolding prefix_def by blast
  have f: "func_name g2 = func_name g1" using e12 by (simp add: extends_def)
  have c: "loop_count g1 \<le> loop_count g2" "loop_count g2 \<le> loop_count g3"
    using e12 e23 by (simp_all add: extends_def)
  have d: "drop (length (lines g1)) (lines g3) = n1 @ n2" using l2 l3 by simp
  have d1: "drop (length (lines g1)) (lines g2) = n1" using l2 by simp
  have d2: "drop (length (lines g2)) (lines g3) = n2" using l3 by simp
  show ?thesis
    unfolding fresh_labels_def d
    using assms c f extends_trans [OF e12 e23]
    unfolding fresh_labels_def d1 d2 by fastforce
qed

lemma fresh_labels_step:
  assumes "extends g g'" and "lines g' = lines g @ ls"
    and "\<And>k. (\<forall>j. func_name g @ '':'' \<noteq> loop_label j) \<Longrightarrow> loop_label k \<in> set ls \<Longrightarrow>
           loop_count g < k \<and> k \<le> loop_count g'"
  shows "fresh_labels g g'"
  using assms by (simp add: fresh_labels_def)

lemma fresh_labels_visit_Name:
  assumes "visit_Name g x = Inr (r, g')"
  shows "fresh_labels g g'"
proof -
  from assms obtain l where "lines g' = lines g @ [''    movq '' @ l]"
    by (auto simp: visit_Name_def Let_def emit_def split: option.splits if_splits sum.splits)
  then show ?thesis
    using extends_visit_Name [OF assms] by (auto intro!: fresh_labels_step simp: loop_label_def)
qed

lemma fresh_labels_visit_Constant:
  assumes "visit_Constant g v = Inr (r, g')"
  shows "fresh_labels g g'"
proof -
  from assms obtain l1 l2 where "lines g' = lines g @ [''    mov rax, '' @ l1, ''    movq '' @ l2]"
    by (auto simp: visit_Constant_def emit_def split: sum.splits)
  then show ?thesis
    using extends_visit_Constant [OF assms]
    by (auto intro!: fresh_labels_step simp: loop_label_def)
qed

lemma fresh_labels_op:
  assumes "binop_to_asm op l r = Inr ln"
  shows "fresh_labels g (emit g [ln])"
proof -
  from assms obtain rest where "ln = CHR '' '' # rest"
    by (cases op) auto
  then show ?thesis
    using extends_emit [of g "[ln]"]
    by (auto intro!: fresh_labels_step simp: loop_label_def emit_def)
qed

lemma fresh_labels_visit:
  shows "visit g n = Inr g' \<Longrightarrow> fresh_labels g g'"
    and "visit_all g ns = Inr g' \<Longrightarrow> fresh_labels g g'"
    and "evaluate_node g n = Inr (reg, g') \<Longrightarrow> fresh_labels g g'"
    and "visit_BinOp g n = Inr g' \<Longrightarrow> fresh_labels g g'"
    and "visit_For g n = Inr g' \<Longrightarrow> fresh_labels g g'"
    and "generic_visit g n = Inr g' \<Longrightarrow> fresh_labels g g'"
proof -
  have pro: "fresh_labels g (generate_prologue g)" for g
  proof (rule fresh_labels_step)
    show "extends g (generate_prologue g)"
      unfolding generate_prologue_def by (rule extends_emit)
    show "lines (generate_prologue g) = lines g @
        [''section .text'', ''global '' @ func_name g, func_name g @ '':'',
         ''    ; Function prologue'', ''    push rbp'', ''    mov rbp, rsp'',
         ''    ; Assume float args in rdi, rsi, rdx, rcx, r8, r9'']"
      by (simp add: generate_prologue_def emit_def)
    show "loop_count g < k \<and> k \<le> loop_count (generate_prologue g)"
      if "\<forall>j. func_name g @ '':'' \<noteq> loop_label j"
        and "loop_label k \<in> set [''section .text'', ''global '' @ func_name g,
         func_name g @ '':'', ''    ; Function prologue'', ''    push rbp'',
         ''    mov rbp, rsp'', ''    ; Assume float args in rdi, rsi, rdx, rcx, r8, r9'']" for k
    proof -
      from that(2) have "loop_label k = func_name g @ '':''"
        by (auto simp: loop_label_def)
      then show ?thesis using that(1) by metis
    qed
  qed
  have epi: "fresh_labels g (generate_epilogue g)" for g
    using extends_emit [of g]
    by (auto intro!: fresh_labels_step simp: generate_epilogue_def emit_def loop_label_def)
  have tmp: "fresh_labels g (g\<lparr>reg_alloc := a\<rparr>)"
    if "allocate_xmm (reg_alloc g) ''tmp'' = Inr (r, a)" for g r a
    using extends_allocate [OF that] by (auto intro!: fresh_labels_step [where ls = "[]"])
  have head: "fresh_labels g (loop_head g a)" for g a
  proof (rule fresh_labels_step)
    show "extends g (loop_head g a)"
      unfolding loop_head_def by (rule extends_trans [OF extends_loop_begin extends_emit])
    show "lines (loop_head g a) = lines g @
        [''    ; Begin loop '' @ str_int (loop_count g + 1),
         ''    mov rcx, '' @ n_var a @ ''    ; loop counter'',
         loop_label (loop_count g + 1)]"
      by (simp add: loop_head_def loop_begin_def emit_def loop_label_def)
    show "loop_count g < k \<and> k \<le> loop_count (loop_head g a)"
      if "loop_label k \<in> set [''    ; Begin loop '' @ str_int (loop_count g + 1),
         ''    mov rcx, '' @ n_var a @ ''    ; loop counter'',
         loop_label (loop_count g + 1)]" for k
    proof -
      from that have "loop_label k = loop_label (loop_count g + 1)"
        by (auto simp: loop_label_def)
      then have "k = loop_count g + 1" by (rule loop_label_inj)
      then show ?thesis by (simp add: loop_head_def loop_begin_def emit_def)
    qed
  qed
  have tail: "fresh_labels g (loop_tail i g)" for g i
  proof (rule fresh_labels_step)
    show "extends g (loop_tail i g)"
      unfolding loop_tail_def by (rule extends_trans [OF extends_emit extends_emit])
    show "lines (loop_tail i g) = lines g @
        [''    dec rcx'', ''    jnz loop_'' @ str_int i, ''    ; End loop '' @ str_int i]"
      by (simp add: loop_tail_def emit_def)
    show "loop_count g < k \<and> k \<le> loop_count (loop_tail i g)"
      if "loop_label k \<in> set [''    dec rcx'', ''    jnz loop_'' @ str_int i,
         ''    ; End loop '' @ str_int i]" for k
      using that by (auto simp: loop_label_def)
  qed
  have skip: "fresh_labels g (loop_skip g)" for g
  proof (rule fresh_labels_step)
    show "extends g (loop_skip g)"
      unfolding loop_skip_def by (rule extends_trans [OF extends_loop_begin extends_emit])
    show "lines (loop_skip g) = lines g @
        [''    ; Begin loop '' @ str_int (loop_count g + 1),
         ''    ; End loop '' @ str_int (loop_count g + 1)]"
      by (simp add: loop_skip_def loop_begin_def emit_def)
    show "loop_count g < k \<and> k \<le> loop_count (loop_skip g)"
      if "loop_label k \<in> set [''    ; Begin loop '' @ str_int (loop_count g + 1),
         ''    ; End loop '' @ str_int (loop_count g + 1)]" for k
      using that by (auto simp: loop_label_def)
  qed
  note steps = visit_steps [where R = fresh_labels, OF fresh_labels_refl fresh_labels_trans
      pro epi fresh_labels_visit_Name fresh_labels_visit_Constant fresh_labels_op tmp
      head tail skip]
  show "visit g n = Inr g' \<Longrightarrow> fresh_labels g g'"
    and "visit_all g ns = Inr g' \<Longrightarrow> fresh_labels g g'"
    and "evaluate_node g n = Inr (reg, g') \<Longrightarrow> fresh_labels g g'"
    and "visit_BinOp g n = Inr g' \<Longrightarrow> fresh_labels g g'"
    and "visit_For g n = Inr g' \<Longrightarrow> fresh_labels g g'"
    and "generic_visit g n = Inr g' \<Longrightarrow> fresh_labels g g'"
    by (rule steps; assumption)+
qed

section \<open>The number of registers in use\<close>





section \<open>Claims\<close>

text \<open>C1, as stated, fails: the temporaries of two sibling binary operations of one
  compilation, \<open>a + b\<close> and then \<open>c + d\<close>, are the same register \<open>xmm2\<close>.\<close>

theorem binop_temporaries_collide:
  "(case evaluate_node (ASMGenerator_init ''f'' [''a'', ''b'', ''c'', ''d''])
           (BinOp (Name ''a'') Add (Name ''b'')) of
      Inl e \<Rightarrow> False
    | Inr (r1, g1) \<Rightarrow>
        (case evaluate_node g1 (BinOp (Name ''c'') Add (Name ''d'')) of
           Inl e \<Rightarrow> False
         | Inr (r2, g2) \<Rightarrow> r1 = ''xmm2'' \<and> r2 = ''xmm2''))"
  by (simp add: gen_eval)

text \<open>C1, amended: the register returned for a binary operation is the one bound to
  the single key \<open>tmp\<close>, whatever the node; so every binary operation lowered later in
  the same compilation returns that same register.\<close>

theorem binop_temporary_is_tmp:
  assumes "evaluate_node g (BinOp l op r) = Inr (reg, g1)"
    and "extends g1 g2"
    and "evaluate_node g2 (BinOp l' op' r') = Inr (reg', g3)"
  shows "used_xmm (reg_alloc g1) ''tmp'' = Some reg \<and> reg' = reg"
proof -
  from assms(1) obtain h a0 where "allocate_xmm (reg_alloc h) ''tmp'' = Inr (reg, a0)"
    and "g1 = h\<lparr>reg_alloc := a0\<rparr>"
    by (rule evaluate_node_BinOp_Inr)
  then have tmp1: "used_xmm (reg_alloc g1) ''tmp'' = Some reg"
    using allocate_binds by fastforce
  from assms(3) obtain h' a where v: "visit_BinOp g2 (BinOp l' op' r') = Inr h'"
    and a: "allocate_xmm (reg_alloc h') ''tmp'' = Inr (reg', a)"
    by (rule evaluate_node_BinOp_Inr)
  have "extends g1 h'" using extends_trans [OF assms(2) extends_visit(4) [OF v]] .
  then have "used_xmm (reg_alloc g1) \<subseteq>\<^sub>m used_xmm (reg_alloc h')" by (simp add: extends_def)
  then have "used_xmm (reg_alloc h') ''tmp'' = Some reg"
    using tmp1 by (metis domI map_le_def)
  then have "reg' = reg" using a by (simp add: allocate_xmm_def)
  then show ?thesis using tmp1 by simp
qed

theorem binop_temporary_is_tmp_witness:
  "\<exists>g1 g3.
     evaluate_node (ASMGenerator_init ''f'' [''a'', ''b'', ''c'', ''d''])
       (BinOp (Name ''a'') Add (Name ''b'')) = Inr (''xmm2'', g1) \<and>
     extends g1 g1 \<and>
     evaluate_node g1 (BinOp (Name ''c'') Mult (Name ''d'')) = Inr (''xmm2'', g3) \<and>
     used_xmm (reg_alloc g1) ''tmp'' = Some ''xmm2''"
proof -
  obtain g1 where a: "evaluate_node (ASMGenerator_init ''f'' [''a'', ''b'', ''c'', ''d''])
       (BinOp (Name ''a'') Add (Name ''b'')) = Inr (''xmm2'', g1)"
    by (simp add: gen_eval)
  obtain r3 g3 where b: "evaluate_node g1 (BinOp (Name ''c'') Mult (Name ''d'')) = Inr (r3, g3)"
    using a by (auto simp: gen_eval)
  show ?thesis
    using binop_temporary_is_tmp [OF a extends_refl b] a b extends_refl by blast
qed

text \<open>C2, as stated, fails: a function whose body is \<open>if a: return a\<close> compiles; the
  text written holds the prologue, the loads of the test and of the returned name, and
  the epilogue.\<close>

theorem if_statement_compiles:
  "transpile_to_asm ''f'' [''a''] [If_node (Name ''a'') [Return (Some (Name ''a''))] []] =
     Inr (join_lines
       [''section .text'', ''global f'', ''f:'', ''    ; Function prologue'',
        ''    push rbp'', ''    mov rbp, rsp'',
        ''    ; Assume float args in rdi, rsi, rdx, rcx, r8, r9'',
        ''    movq xmm0, rdi    ; Load argument a'',
        ''    movq xmm0, rdi    ; Load argument a'',
        ''    ; Function epilogue'', ''    pop rbp'', ''    ret''])"
  by (simp add: transpile_to_asm_def gen_eval)

text \<open>C2, amended: an \<open>if\<close> statement is no error of its own. The generic traversal
  visits its test, then the statements of its body, then those of its \<open>else\<close> branch, as
  if they stood in a row; it fails only where one of these visits fails, and emits what
  they emit.\<close>

theorem if_statement_is_traversed:
  "visit g (If_node test body orelse) = visit_all g (test # body @ orelse)"
  by (simp add: visit_all_append split: sum.splits)

text \<open>C3, as stated, fails: the second visit of the parameter \<open>a\<close> returns the register
  of the first, \<open>xmm0\<close>, and appends the load line once more.\<close>

theorem revisited_name_is_loaded_again:
  "(case visit_Name (ASMGenerator_init ''f'' [''a'']) ''a'' of
      Inl e \<Rightarrow> False
    | Inr (r1, g1) \<Rightarrow>
        (case visit_Name g1 ''a'' of
           Inl e \<Rightarrow> False
         | Inr (r2, g2) \<Rightarrow>
             r1 = ''xmm0'' \<and> r2 = ''xmm0'' \<and>
             lines g1 = [''    movq xmm0, rdi    ; Load argument a''] \<and>
             lines g2 = [''    movq xmm0, rdi    ; Load argument a'',
                         ''    movq xmm0, rdi    ; Load argument a'']))"
  by (simp add: gen_eval)

text \<open>C3, amended: once a parameter name has been visited, every later visit of it in
  the same compilation returns the register assigned at the first visit, leaves the pool
  as it is, and appends one more load line for it.\<close>

theorem revisit_name_same_register:
  assumes "visit_Name g0 x = Inr (r, g1)"
    and "extends g1 g"
    and "index_of (args g0) x = Some i"
  shows "visit_Name g x =
     Inr (r, emit g [''    movq '' @ r @ '', '' @ GENERAL_REGS ! i @ ''    ; Load argument '' @ x])"
proof -
  from assms(1,3) have i: "i < length GENERAL_REGS"
    by (auto simp: visit_Name_def split: if_splits)
  from assms(1) obtain a where "allocate_xmm (reg_alloc g0) x = Inr (r, a)"
    and "reg_alloc g1 = a"
    by (auto simp: visit_Name_def Let_def emit_def split: option.splits if_splits sum.splits)
  then have "used_xmm (reg_alloc g1) x = Some r" using allocate_binds by blast
  moreover have "used_xmm (reg_alloc g1) \<subseteq>\<^sub>m used_xmm (reg_alloc g)"
    using assms(2) by (simp add: extends_def)
  ultimately have u: "used_xmm (reg_alloc g) x = Some r" by (metis domI map_le_def)
  have "args g = args g0"
    using assms(2) extends_visit_Name [OF assms(1)] by (simp add: extends_def)
  then show ?thesis
    using u i assms(3) by (simp add: visit_Name_def allocate_xmm_def)
qed

theorem revisit_name_same_register_witness:
  "\<exists>g1. visit_Name (ASMGenerator_init ''f'' [''a'', ''b'']) ''b'' = Inr (''xmm0'', g1) \<and>
     extends g1 g1 \<and>
     index_of (args (ASMGenerator_init ''f'' [''a'', ''b''])) ''b'' = Some 1 \<and>
     visit_Name g1 ''b'' =
       Inr (''xmm0'', emit g1 [''    movq xmm0, rsi    ; Load argument b''])"
proof -
  obtain g1 where a: "visit_Name (ASMGenerator_init ''f'' [''a'', ''b'']) ''b'' = Inr (''xmm0'', g1)"
    by (simp add: gen_eval)
  have b: "index_of (args (ASMGenerator_init ''f'' [''a'', ''b''])) ''b'' = Some 1"
    by (simp add: ASMGenerator_init_def)
  show ?thesis
    using revisit_name_same_register [OF a extends_refl b] a b extends_refl
    by (auto simp: GENERAL_REGS_def)
qed

text \<open>C4, as stated, fails on the order: for \<open>for i in range(3): pass\<close> the counter is
  initialised before the label, not after it (between the begin and end comment lines of
  the loop).\<close>

theorem counter_is_set_before_label:
  "map_sum id lines
     (visit (ASMGenerator_init ''f'' [''x''])
        (For (Name ''i'') (Call (Name ''range'') [Constant (CInt 3)] []) [Other ''Pass'' []] [])) =
   Inr [''    ; Begin loop 1'',
        ''    mov rcx, 3    ; loop counter'',
        ''loop_1:'',
        ''    dec rcx'',
        ''    jnz loop_1'',
        ''    ; End loop 1'']"
proof -
  have s: "str_int 1 = ''1''" "str_int 3 = ''3''" by code_simp+
  show ?thesis by (simp add: Let_def ASMGenerator_init_def emit_def s)
qed

text \<open>C4, amended: for every counted loop \<open>for <var> in range(<n>, ...)\<close> that is
  lowered, the lines appended are, in this order: the begin comment, the initialisation
  of the counter register \<open>rcx\<close> from \<open><n>\<close>, the label, the lines of the lowered
  body, the decrement, the conditional branch back to the label, and the end comment,
  once per loop occurrence. The id of the loop is one more than the loop counter before
  it, and the counter never goes down, so loops lowered in its body or after it get
  greater ids. When the function's own label is not the text of a loop label and no label
  already emitted has an id above the counter, the label of this loop occurs neither
  before it nor in its body, and the same holds of the state after the loop.\<close>

theorem counted_loop_lowering:
  assumes "visit g (For (Name t) (Call (Name ''range'') (a # as) kws) body orelse) = Inr g'"
  shows "\<exists>g2 body_lines.
     visit_all (loop_head g a) body = Inr g2 \<and>
     lines g2 = lines (loop_head g a) @ body_lines \<and>
     lines g' = lines g @
       [''    ; Begin loop '' @ str_int (loop_count g + 1),
        ''    mov rcx, '' @ n_var a @ ''    ; loop counter'',
        loop_label (loop_count g + 1)] @
       body_lines @
       [''    dec rcx'',
        ''    jnz loop_'' @ str_int (loop_count g + 1),
        ''    ; End loop '' @ str_int (loop_count g + 1)] \<and>
     loop_count (loop_head g a) = loop_count g + 1 \<and>
     loop_count g + 1 \<le> loop_count g2 \<and> loop_count g' = loop_count g2 \<and>
     ((\<forall>k. func_name g @ '':'' \<noteq> loop_label k) \<longrightarrow>
      (\<forall>k. loop_label k \<in> set (lines g) \<longrightarrow> k \<le> loop_count g) \<longrightarrow>
        loop_label (loop_count g + 1) \<notin> set (lines g) \<and>
        loop_label (loop_count g + 1) \<notin> set body_lines \<and>
        (\<forall>k. loop_label k \<in> set (lines g') \<longrightarrow> k \<le> loop_count g'))"
proof -
  let ?id = "loop_count g + 1"
  let ?h = "loop_head g a"
  from assms have "visit_For g (For (Name t) (Call (Name ''range'') (a # as) kws) body orelse) = Inr g'"
    by simp
  then obtain g2 where body: "visit_all ?h body = Inr g2" and g': "g' = loop_tail ?id g2"
    unfolding visit_For_range by (auto split: sum.splits)
  have fl: "fresh_labels ?h g2" using fresh_labels_visit(2) [OF body] .
  then have ext: "extends ?h g2" by (simp add: fresh_labels_def)
  then obtain body_lines where bl: "lines g2 = lines ?h @ body_lines"
    by (auto simp: extends_def prefix_def)
  have hl: "lines ?h = lines g @
       [''    ; Begin loop '' @ str_int ?id,
        ''    mov rcx, '' @ n_var a @ ''    ; loop counter'',
        loop_label ?id]"
    by (simp add: loop_head_def loop_begin_def emit_def loop_label_def)
  have hc: "loop_count ?h = ?id" by (simp add: loop_head_def loop_begin_def emit_def)
  have fh: "func_name ?h = func_name g" by (simp add: loop_head_def loop_begin_def emit_def)
  have c2: "?id \<le> loop_count g2" using ext hc by (simp add: extends_def)
  have c': "loop_count g' = loop_count g2" by (simp add: g' loop_tail_def emit_def)
  have l': "lines g' = lines g @
       [''    ; Begin loop '' @ str_int ?id,
        ''    mov rcx, '' @ n_var a @ ''    ; loop counter'',
        loop_label ?id] @
       body_lines @
       [''    dec rcx'', ''    jnz loop_'' @ str_int ?id, ''    ; End loop '' @ str_int ?id]"
    by (simp add: g' loop_tail_def emit_def bl hl)
  have labels: "loop_label ?id \<notin> set (lines g) \<and> loop_label ?id \<notin> set body_lines \<and>
        (\<forall>k. loop_label k \<in> set (lines g') \<longrightarrow> k \<le> loop_count g')"
    if H1: "\<forall>k. func_name g @ '':'' \<noteq> loop_label k"
      and H2: "\<forall>k. loop_label k \<in> set (lines g) \<longrightarrow> k \<le> loop_count g"
  proof -
    have in_body: "?id < k \<and> k \<le> loop_count g2" if "loop_label k \<in> set body_lines" for k
      using fl that H1 bl unfolding fresh_labels_def fh hc by simp
    have a1: "loop_label ?id \<notin> set (lines g)" using H2 by force
    have a2: "loop_label ?id \<notin> set body_lines" using in_body by force
    have a3: "k \<le> loop_count g'" if "loop_label k \<in> set (lines g')" for k
    proof -
      from that consider "loop_label k \<in> set (lines g)" | "loop_label k = loop_label ?id"
        | "loop_label k \<in> set body_lines"
        unfolding l' by (auto simp: loop_label_def)
      then show ?thesis
      proof cases
        case 1
        then show ?thesis using H2 c2 c' by force
      next
        case 2
        then have "k = ?id" by (rule loop_label_inj)
        then show ?thesis using c2 c' by simp
      next
        case 3
        then show ?thesis using in_body c' by simp
      qed
    qed
    show ?thesis using a1 a2 a3 by blast
  qed
  show ?thesis using body bl l' hc c2 c' labels by blast
qed

theorem counted_loop_lowering_witness:
  "\<exists>g'.
     visit (ASMGenerator_init ''scale'' [''x''])
       (For (Name ''i'') (Call (Name ''range'') [Constant (CInt 4)] [])
          [Other ''Assign''
             [Name ''x'', BinOp (Name ''x'') Mult (Constant (CFloat 0x4000000000000000))]]
          []) = Inr g' \<and>
     lines g' =
       [''    ; Begin loop 1'',
        ''    mov rcx, 4    ; loop counter'',
        ''loop_1:'',
        ''    movq xmm0, rdi    ; Load argument x'',
        ''    movq xmm0, rdi    ; Load argument x'',
        ''    mov rax, 0x4000000000000000    ; Load constant 2.0'',
        ''    movq xmm1, rax'',
        ''    mulsd xmm0, xmm1    ; mul'',
        ''    dec rcx'',
        ''    jnz loop_1'',
        ''    ; End loop 1''] \<and>
     (\<forall>k. func_name (ASMGenerator_init ''scale'' [''x'']) @ '':'' \<noteq> loop_label k) \<and>
     (\<forall>k. loop_label k \<in> set (lines (ASMGenerator_init ''scale'' [''x''])) \<longrightarrow>
          k \<le> loop_count (ASMGenerator_init ''scale'' [''x''])) \<and>
     loop_count g' = 1 \<and>
     (\<forall>k. loop_label k \<in> set (lines g') \<longrightarrow> k \<le> 1)"
proof -
  let ?g = "ASMGenerator_init ''scale'' [''x'']"
  have s: "str_int 1 = ''1''" "str_int 4 = ''4''" "float_repr 0x4000000000000000 = ''2.0''"
    "hex 0x4000000000000000 = ''0x4000000000000000''"
    by code_simp+
  obtain g' where v: "visit ?g
       (For (Name ''i'') (Call (Name ''range'') [Constant (CInt 4)] [])
          [Other ''Assign''
             [Name ''x'', BinOp (Name ''x'') Mult (Constant (CFloat 0x4000000000000000))]]
          []) = Inr g'"
    and l: "lines g' =
       [''    ; Begin loop 1'',
        ''    mov rcx, 4    ; loop counter'',
        ''loop_1:'',
        ''    movq xmm0, rdi    ; Load argument x'',
        ''    movq xmm0, rdi    ; Load argument x'',
        ''    mov rax, 0x4000000000000000    ; Load constant 2.0'',
        ''    movq xmm1, rax'',
        ''    mulsd xmm0, xmm1    ; mul'',
        ''    dec rcx'',
        ''    jnz loop_1'',
        ''    ; End loop 1'']"
    and c: "loop_count g' = 1"
    by (simp add: gen_eval float_to_hex_def s)
  have H1: "\<forall>k. func_name ?g @ '':'' \<noteq> loop_label k"
    by (simp add: ASMGenerator_init_def loop_label_def)
  have H2: "\<forall>k. loop_label k \<in> set (lines ?g) \<longrightarrow> k \<le> loop_count ?g"
    by (simp add: ASMGenerator_init_def)
  have "\<forall>k. loop_label k \<in> set (lines g') \<longrightarrow> k \<le> loop_count g'"
    using counted_loop_lowering [OF v] H1 H2 by blast
  then show ?thesis using v l c H1 H2 by auto
qed

text \<open>C5, as stated, fails: the literals \<open>1\<close> and \<open>1.0\<close> have the same 64-bit pattern,
  \<open>0x3ff0000000000000\<close>, and in one compilation they are given two registers, \<open>xmm0\<close>
  and \<open>xmm1\<close>.\<close>

theorem same_bits_distinct_registers:
  "pack_d (CInt 1) = pack_d (CFloat 0x3FF0000000000000) \<and>
   (case visit_Constant (ASMGenerator_init ''f'' []) (CInt 1) of
      Inl e \<Rightarrow> False
    | Inr (r1, g1) \<Rightarrow>
        (case visit_Constant g1 (CFloat 0x3FF0000000000000) of
           Inl e \<Rightarrow> False
         | Inr (r2, g2) \<Rightarrow> r1 = ''xmm0'' \<and> r2 = ''xmm1''))"
  by (simp add: const_eval)

text \<open>C5, amended: the key of a literal is \<open>const_\<close> followed by the text \<open>str\<close> gives
  its value, not its bit pattern. In a compilation that starts from a pool satisfying its
  invariants, two literal occurrences that are both lowered (the pool is not exhausted)
  are given the same register if and only if the texts of their values are equal; so
  \<open>1.5\<close> and \<open>1.5\<close> share a register, \<open>1.5\<close> and \<open>2.5\<close> do not, and neither do \<open>1\<close>
  and \<open>1.0\<close>.\<close>

theorem constants_share_register_iff_same_text:
  assumes "pool_inv (reg_alloc g)" and "keys_distinct (reg_alloc g)"
    and "visit_Constant g v1 = Inr (r1, g1)"
    and "extends g1 g2"
    and "visit_Constant g2 v2 = Inr (r2, g3)"
  shows "r1 = r2 \<longleftrightarrow> py_str v1 = py_str v2"
proof -
  let ?k1 = "''const_'' @ py_str v1" and ?k2 = "''const_'' @ py_str v2"
  have e: "extends g g3"
    using extends_visit_Constant [OF assms(3)] assms(4) extends_visit_Constant [OF assms(5)]
      extends_trans by blast
  then have inj: "keys_distinct (reg_alloc g3)" using assms(1,2) by (simp add: extends_def)
  have "extends g1 g3"
    using assms(4) extends_visit_Constant [OF assms(5)] extends_trans by blast
  then have "used_xmm (reg_alloc g1) \<subseteq>\<^sub>m used_xmm (reg_alloc g3)" by (simp add: extends_def)
  then have k1: "used_xmm (reg_alloc g3) ?k1 = Some r1"
    using visit_Constant_binds [OF assms(3)] by (metis domI map_le_def)
  have k2: "used_xmm (reg_alloc g3) ?k2 = Some r2"
    using visit_Constant_binds [OF assms(5)] .
  have "r1 = r2 \<longleftrightarrow> ?k1 = ?k2"
    using inj k1 k2 unfolding keys_distinct_def inj_on_def by (metis domI option.inject)
  then show ?thesis by simp
qed

theorem constants_share_register_iff_same_text_witness:
  "\<exists>g1 g2 g3.
     pool_inv (reg_alloc (ASMGenerator_init ''f'' [])) \<and>
     keys_distinct (reg_alloc (ASMGenerator_init ''f'' [])) \<and>
     visit_Constant (ASMGenerator_init ''f'' []) (CFloat 0x3FF8000000000000) = Inr (''xmm0'', g1) \<and>
     extends g1 g1 \<and> extends g1 g2 \<and>
     visit_Constant g1 (CFloat 0x4004000000000000) = Inr (''xmm1'', g2) \<and>
     visit_Constant g2 (CFloat 0x3FF8000000000000) = Inr (''xmm0'', g3) \<and>
     py_str (CFloat 0x3FF8000000000000) = ''1.5'' \<and> py_str (CFloat 0x4004000000000000) = ''2.5''"
proof -
  note ev = const_eval
  obtain g1 where a: "visit_Constant (ASMGenerator_init ''f'' []) (CFloat 0x3FF8000000000000) =
      Inr (''xmm0'', g1)"
    by (simp add: ev)
  obtain r2 g2 where b: "visit_Constant g1 (CFloat 0x4004000000000000) = Inr (r2, g2)"
    using a by (auto simp: ev)
  obtain r3 g3 where c: "visit_Constant g2 (CFloat 0x3FF8000000000000) = Inr (r3, g3)"
    using a b by (auto simp: ev)
  have inv: "pool_inv (reg_alloc (ASMGenerator_init ''f'' []))"
    "keys_distinct (reg_alloc (ASMGenerator_init ''f'' []))"
    using pool_inv_fresh_generator by simp_all
  have e12: "extends g1 g2" using extends_visit_Constant [OF b] .
  have "r2 \<noteq> ''xmm0''"
    using constants_share_register_iff_same_text [OF inv a extends_refl b]
    by (simp add: float_repr_1_5 float_repr_2_5)
  moreover have "r2 = ''xmm1''" using a b by (auto simp: ev)
  moreover have "r3 = ''xmm0''"
    using constants_share_register_iff_same_text [OF inv a e12 c] by simp
  ultimately show ?thesis
    using a b c inv e12 extends_refl float_repr_1_5 float_repr_2_5 by auto
qed



text \<open>C7: the partition invariant (no register both free and assigned, none free
  twice) holds of a fresh pool, is kept by every allocation and holds after a reset;
  an allocation keeps every entry of the mapping. So does every visit of the generator
  that returns: the invariant holds at the end if it held at the start, and every key
  bound at the start is still bound, to the same register (the mapping only grows until
  \<open>free_all\<close>, which the generator never calls).\<close>

theorem pool_partition_invariant:
  "pool_inv RegisterAllocator_init \<and>
   (pool_inv a \<longrightarrow> allocate_xmm a k = Inr (r, a') \<longrightarrow>
      pool_inv a' \<and> used_xmm a \<subseteq>\<^sub>m used_xmm a') \<and>
   pool_inv (free_all a) \<and>
   (pool_inv (reg_alloc g) \<longrightarrow> visit g n = Inr g' \<longrightarrow>
      pool_inv (reg_alloc g') \<and> used_xmm (reg_alloc g) \<subseteq>\<^sub>m used_xmm (reg_alloc g'))"
proof -
  have "pool_inv (reg_alloc g') \<and> used_xmm (reg_alloc g) \<subseteq>\<^sub>m used_xmm (reg_alloc g')"
    if "pool_inv (reg_alloc g)" and "visit g n = Inr g'"
    using extends_visit(1) [OF that(2)] that(1) by (simp add: extends_def)
  then show ?thesis
    using pool_inv_init pool_inv_allocate allocate_map_le pool_inv_free_all by blast
qed

theorem pool_partition_invariant_witness:
  "pool_inv RegisterAllocator_init \<and>
   allocate_xmm RegisterAllocator_init ''a'' =
     Inr (''xmm0'', \<lparr>free_xmm = tl XMM_REGS, used_xmm = [''a'' \<mapsto> ''xmm0'']\<rparr>) \<and>
   pool_inv \<lparr>free_xmm = tl XMM_REGS, used_xmm = [''a'' \<mapsto> ''xmm0'']\<rparr> \<and>
   used_xmm RegisterAllocator_init \<subseteq>\<^sub>m [''a'' \<mapsto> ''xmm0''] \<and>
   (\<exists>g'. pool_inv (reg_alloc (ASMGenerator_init ''add'' [''a'', ''b''])) \<and>
      visit (ASMGenerator_init ''add'' [''a'', ''b''])
        (Return (Some (BinOp (Name ''a'') Add (Name ''b'')))) = Inr g' \<and>
      pool_inv (reg_alloc g') \<and>
      used_xmm (reg_alloc g') = [''a'' \<mapsto> ''xmm0'', ''b'' \<mapsto> ''xmm1''])"
proof -
  obtain g' where v: "visit (ASMGenerator_init ''add'' [''a'', ''b''])
        (Return (Some (BinOp (Name ''a'') Add (Name ''b'')))) = Inr g'"
    and u: "used_xmm (reg_alloc g') = [''a'' \<mapsto> ''xmm0'', ''b'' \<mapsto> ''xmm1'']"
    by (simp add: gen_eval)
  have i: "pool_inv (reg_alloc (ASMGenerator_init ''add'' [''a'', ''b'']))"
    using pool_inv_fresh_generator by simp
  show ?thesis
    using pool_partition_invariant [where a = RegisterAllocator_init and k = "''a''"
      and r = "''xmm0''"
      and a' = "\<lparr>free_xmm = tl XMM_REGS, used_xmm = [''a'' \<mapsto> ''xmm0'']\<rparr>"
      and g = "ASMGenerator_init ''add'' [''a'', ''b'']"
      and n = "Return (Some (BinOp (Name ''a'') Add (Name ''b'')))" and g' = g'] v u i
    by (simp add: allocate_xmm_def RegisterAllocator_init_def XMM_REGS_eq)
qed



text \<open>C9, as stated, fails: a loop whose target is not a plain name, here
  \<open>for a, b in xs: pass\<close>, raises \<open>AttributeError\<close> although its iterator is no call.\<close>

theorem for_tuple_target_raises:
  "visit (ASMGenerator_init ''f'' [''xs''])
     (For (Other ''Tuple'' [Name ''a'', Name ''b'']) (Name ''xs'') [Other ''Pass'' []] []) =
     Inl AttributeError"
  by (simp add: Let_def)

text \<open>C9, amended: for every \<open>for\<close> statement whose target is a plain name and whose
  iterator is not a call node, lowering counts the loop, appends the begin-loop and the
  end-loop comment lines and nothing else: the body is skipped and nothing is raised.\<close>

theorem for_without_call_is_skipped:
  assumes "\<forall>func as kws. iter \<noteq> Call func as kws"
  shows "visit g (For (Name t) iter body orelse) =
     Inr (g\<lparr>loop_count := loop_count g + 1,
             lines := lines g @ [''    ; Begin loop '' @ str_int (loop_count g + 1),
                                 ''    ; End loop '' @ str_int (loop_count g + 1)]\<rparr>)"
  using assms visit_For_no_call [of iter g t body orelse]
  by (simp add: loop_skip_def loop_begin_def emit_def)

theorem for_without_call_is_skipped_witness:
  "(\<forall>func as kws. Name ''xs'' \<noteq> Call func as kws) \<and>
   map_sum id lines (visit (ASMGenerator_init ''f'' [''xs''])
     (For (Name ''x'') (Name ''xs'') [Return (Some (Name ''x''))] [])) =
     Inr [''    ; Begin loop 1'', ''    ; End loop 1'']"
proof -
  have h: "\<forall>func as kws. Name ''xs'' \<noteq> Call func as kws" by simp
  have s: "str_int 1 = ''1''" by code_simp
  show ?thesis
    using for_without_call_is_skipped [OF h, of "ASMGenerator_init ''f'' [''xs'']" "''x''"
        "[Return (Some (Name ''x''))]" "[]"] h
    by (simp add: ASMGenerator_init_def s)
qed



end
